theory Spec2Isabelle
  imports Main "HOL-Library.Word"
begin

section \<open>Strings as Python sees them\<close>

text \<open>
  A Python \<open>str\<close> is a sequence of code points. The model's characters are the code
  points below 256 (\<^typ>\<open>char\<close>), classified as Python classifies them:
  \<open>str.isspace\<close> and the pattern \<open>\s\<close> hold for 9-13, 28-32, 133 and 160, the pattern
  \<open>\d\<close> holds for the ten ASCII digits only, and \<open>str.lower\<close> maps A-Z and the
  capital letters 192-222 (215, the multiplication sign, apart) 32 places up.
\<close>

definition is_space :: "char \<Rightarrow> bool" where
  "is_space c =
     (let n = (of_char c :: nat)
      in (9 \<le> n \<and> n \<le> 13) \<or> (28 \<le> n \<and> n \<le> 32) \<or> n = 133 \<or> n = 160)"

definition is_digit :: "char \<Rightarrow> bool" where
  "is_digit c = (let n = (of_char c :: nat) in 48 \<le> n \<and> n \<le> 57)"

definition digit_value :: "char \<Rightarrow> int" where
  "digit_value c = int (of_char c) - 48"

definition lower_char :: "char \<Rightarrow> char" where
  "lower_char c =
     (let n = (of_char c :: nat)
      in if (65 \<le> n \<and> n \<le> 90) \<or> (192 \<le> n \<and> n \<le> 222 \<and> n \<noteq> 215)
         then char_of (n + 32) else c)"

text \<open>\<open>s.lower()\<close>\<close>

definition lower :: "string \<Rightarrow> string" where
  "lower s = map lower_char s"

text \<open>\<open>s.strip()\<close>: whitespace removed at both ends.\<close>

definition strip :: "string \<Rightarrow> string" where
  "strip s = rev (dropWhile is_space (rev (dropWhile is_space s)))"

text \<open>
  \<open>p in s\<close>: \<open>p\<close> occurs in \<open>s\<close> as a contiguous substring, that is, some
  position of \<open>s\<close> starts with \<open>p\<close>.
\<close>

fun starts_with :: "string \<Rightarrow> string \<Rightarrow> bool" where
  "starts_with [] s = True"
| "starts_with (x # xs) [] = False"
| "starts_with (x # xs) (c # cs) = (x = c \<and> starts_with xs cs)"

fun str_in :: "string \<Rightarrow> string \<Rightarrow> bool" where
  "str_in p [] = (p = [])"
| "str_in p (c # cs) = (starts_with p (c # cs) \<or> str_in p cs)"

text \<open>
  \<open>s.split(sep)\<close> for a separator of one character: the pieces between the
  separators, never an empty list.
\<close>

fun split_char :: "char \<Rightarrow> string \<Rightarrow> string list" where
  "split_char sep [] = [[]]"
| "split_char sep (c # cs) =
     (if c = sep then [] # split_char sep cs
      else (case split_char sep cs of
              [] \<Rightarrow> [[c]]
            | p # ps \<Rightarrow> (c # p) # ps))"

text \<open>
  \<open>int(ds)\<close> on a run of decimal digits; Python integers are unbounded. The limit
  that CPython 3.11 and later put on the number of digits \<open>int\<close> converts (4300 unless
  configured otherwise) is not modelled.
\<close>

definition int_of_digits :: "string \<Rightarrow> int" where
  "int_of_digits ds = foldl (\<lambda>acc c. 10 * acc + digit_value c) 0 ds"

section \<open>The three regular expressions\<close>

text \<open>
  \<open>re.search(r'<attached: (.+?)>', line)\<close> returns group 1 of the leftmost match.
  At a start position the literal \<open><attached: \<close> must follow; then \<open>.+?\<close> takes one
  character that is not a newline and, lazily, as few more as it needs to reach a
  \<open>>\<close>; a newline before the \<open>>\<close> fails the attempt at this position.
\<close>

fun lazy_until_gt :: "string \<Rightarrow> string option" where
  "lazy_until_gt [] = None"
| "lazy_until_gt (c # cs) =
     (if c = CHR ''>'' then Some []
      else if c = CHR 0x0A then None
      else map_option ((#) c) (lazy_until_gt cs))"

definition match_attached :: "string \<Rightarrow> string option" where
  "match_attached s =
     (if take 11 s = ''<attached: '' then
        (case drop 11 s of
           [] \<Rightarrow> None
         | c # cs \<Rightarrow> if c = CHR 0x0A then None else map_option ((#) c) (lazy_until_gt cs))
      else None)"

fun search_attached :: "string \<Rightarrow> string option" where
  "search_attached [] = None"
| "search_attached (c # cs) =
     (case match_attached (c # cs) of
        Some g \<Rightarrow> Some g
      | None \<Rightarrow> search_attached cs)"

text \<open>
  \<open>re.search(r'(\d+)', s)\<close>: at the leftmost digit, the longest run of digits.
\<close>

fun search_digits :: "string \<Rightarrow> string option" where
  "search_digits [] = None"
| "search_digits (c # cs) =
     (if is_digit c then Some (takeWhile is_digit (c # cs)) else search_digits cs)"

text \<open>
  \<open>re.sub(r'^\d+\s*', '', s)\<close>: without the MULTILINE flag \<open>^\<close> matches at position 0
  only, so at most one match is replaced: a run of digits at the very start, with the
  whitespace after it.
\<close>

definition sub_leading_digits :: "string \<Rightarrow> string" where
  "sub_leading_digits s =
     (case s of
        [] \<Rightarrow> []
      | c # cs \<Rightarrow> if is_digit c then dropWhile is_space (dropWhile is_digit (c # cs)) else s)"

section \<open>parse_chat\<close>

record wine =
  photo :: string
  rating :: int
  comment :: string

text \<open>
  The body of the \<open>while\<close> loop at index \<open>i\<close>: the record appended there, if any.
  The loop reads \<open>lines[i]\<close> under its guard \<open>i < len(lines)\<close> and \<open>lines[i + 1]\<close> under
  \<open>i + 1 < len(lines)\<close>; \<open>split\<close> returns at least one piece, so \<open>[-1]\<close> has an
  element to take; and each match object is used under the test that it is not
  \<open>None\<close>. So the body raises nothing, and the model is a total function.
\<close>

definition scan_line :: "string list \<Rightarrow> nat \<Rightarrow> wine option" where
  "scan_line lines i =
     (let line = strip (lines ! i)
      in if str_in ''<attached:'' line \<and> str_in ''.jpg'' (lower line) then
           (case search_attached line of
              None \<Rightarrow> None
            | Some photo_name \<Rightarrow>
                if i + 1 < length lines then
                  (let next_line = strip (lines ! (i + 1))
                   in case search_digits (last (split_char CHR '']'' next_line)) of
                        None \<Rightarrow> None
                      | Some digits \<Rightarrow>
                          (let rating = int_of_digits digits;
                               rating = (if rating > 10 then 10 else rating);
                               comment = strip (sub_leading_digits
                                                 (last (split_char CHR '']'' next_line)))
                           in Some \<lparr>photo = photo_name, rating = rating, comment = comment\<rparr>))
                else None)
         else None)"

function parse_loop :: "string list \<Rightarrow> nat \<Rightarrow> wine list \<Rightarrow> wine list" where
  "parse_loop lines i wines =
     (if i < length lines then
        parse_loop lines (i + 1)
          (case scan_line lines i of None \<Rightarrow> wines | Some w \<Rightarrow> wines @ [w])
      else wines)"
  by pat_completeness auto
termination
  by (relation "measure (\<lambda>(lines, i, wines). length lines - i)") auto

declare parse_loop.simps [simp del]

text \<open>
  \<open>parse_chat\<close>, from the list of lines that \<open>f.readlines()\<close> returned; opening and
  decoding the file is outside the model.
\<close>

definition parse_chat :: "string list \<Rightarrow> wine list" where
  "parse_chat lines = parse_loop lines 0 []"

section \<open>image_to_base64\<close>

type_synonym byte = "8 word"

text \<open>
  What a path under the export directory holds: a file whose bytes can be read, or
  something that exists and that \<open>open\<close> or \<open>read\<close> fails on (a directory, a file
  without permission). The directory maps the name joined to it to that; \<open>None\<close> is
  a path that does not exist. The directory does not change while the document is
  made.
\<close>

datatype entry = Readable "byte list" | Unreadable

type_synonym directory = "string \<Rightarrow> entry option"

datatype error = FileNotFoundError | OSError

text \<open>
  \<open>base64.b64encode\<close> and its inverse \<open>base64.b64decode\<close> are functions of Python's
  standard library; they are written here as RFC 4648 defines them: three bytes make
  24 bits, read as four indices into the alphabet A-Z, a-z, 0-9, +, /; one or two
  bytes left over are filled with zero bits and the output with \<open>=\<close>.
\<close>

definition b64_char :: "nat \<Rightarrow> char" where
  "b64_char n =
     (if n < 26 then char_of (65 + n)
      else if n < 52 then char_of (71 + n)
      else if n < 62 then char_of (n - 4)
      else if n = 62 then CHR ''+'' else CHR ''/'')"

definition b64_index :: "char \<Rightarrow> nat option" where
  "b64_index c =
     (let n = (of_char c :: nat)
      in if 65 \<le> n \<and> n \<le> 90 then Some (n - 65)
         else if 97 \<le> n \<and> n \<le> 122 then Some (n - 71)
         else if 48 \<le> n \<and> n \<le> 57 then Some (n + 4)
         else if c = CHR ''+'' then Some 62
         else if c = CHR ''/'' then Some 63
         else None)"

fun b64encode :: "byte list \<Rightarrow> string" where
  "b64encode [] = []"
| "b64encode [a] =
     (let n = unat a * 16
      in [b64_char (n div 64), b64_char (n mod 64), CHR ''='', CHR ''=''])"
| "b64encode [a, b] =
     (let n = (unat a * 256 + unat b) * 4
      in [b64_char (n div 4096), b64_char (n div 64 mod 64), b64_char (n mod 64), CHR ''=''])"
| "b64encode (a # b # c # rest) =
     (let n = (unat a * 256 + unat b) * 256 + unat c
      in [b64_char (n div 262144), b64_char (n div 4096 mod 64),
          b64_char (n div 64 mod 64), b64_char (n mod 64)] @ b64encode rest)"

text \<open>One group of four characters; padding is accepted in the last group only.\<close>

definition b64decode_group :: "bool \<Rightarrow> char \<Rightarrow> char \<Rightarrow> char \<Rightarrow> char \<Rightarrow> byte list option" where
  "b64decode_group final c1 c2 c3 c4 =
     (case (b64_index c1, b64_index c2) of
        (Some i1, Some i2) \<Rightarrow>
          if final \<and> c3 = CHR ''='' \<and> c4 = CHR ''='' then
            Some [of_nat ((i1 * 64 + i2) div 16)]
          else
            (case b64_index c3 of
               None \<Rightarrow> None
             | Some i3 \<Rightarrow>
                 if final \<and> c4 = CHR ''='' then
                   (let m = ((i1 * 64 + i2) * 64 + i3) div 4
                    in Some [of_nat (m div 256), of_nat (m mod 256)])
                 else
                   (case b64_index c4 of
                      None \<Rightarrow> None
                    | Some i4 \<Rightarrow>
                        (let m = ((i1 * 64 + i2) * 64 + i3) * 64 + i4
                         in Some [of_nat (m div 65536), of_nat (m div 256 mod 256),
                                  of_nat (m mod 256)])))
      | _ \<Rightarrow> None)"

fun b64decode :: "string \<Rightarrow> byte list option" where
  "b64decode [] = Some []"
| "b64decode (c1 # c2 # c3 # c4 # rest) =
     (case b64decode_group (rest = []) c1 c2 c3 c4 of
        None \<Rightarrow> None
      | Some bs \<Rightarrow> map_option ((@) bs) (b64decode rest))"
| "b64decode _ = None"

text \<open>
  \<open>image_to_base64(image_path)\<close>, the path being the name joined to the export
  directory: \<open>open\<close> raises where nothing exists or nothing can be read.
\<close>

definition image_to_base64 :: "directory \<Rightarrow> string \<Rightarrow> error + string" where
  "image_to_base64 export_dir name =
     (case export_dir name of
        None \<Rightarrow> Inl FileNotFoundError
      | Some Unreadable \<Rightarrow> Inl OSError
      | Some (Readable bytes) \<Rightarrow> Inr (b64encode bytes))"

section \<open>generate_html\<close>

text \<open>\<open>str(k)\<close> of an integer: decimal, a minus sign for a negative one.\<close>

fun str_nat :: "nat \<Rightarrow> string" where
  "str_nat n =
     (if n < 10 then [char_of (48 + n)]
      else str_nat (n div 10) @ [char_of (48 + n mod 10)])"

definition str_int :: "int \<Rightarrow> string" where
  "str_int k = (if k < 0 then CHR ''-'' # str_nat (nat (- k)) else str_nat (nat k))"

text \<open>The text before the record blocks, and the text after them.\<close>

definition html_head :: string where
  \<open>html_head = ''<!DOCTYPE html>
<html>
<head>
    <meta charset="UTF-8">
    <meta name="viewport" content="width=device-width, initial-scale=1.0">
    <title>Wine Ratings</title>
    <style>
        body { font-family: Arial, sans-serif; margin: 0; padding: 10px; background: #f5f5f5; }
        .search { position: sticky; top: 0; background: white; padding: 10px; box-shadow: 0 2px 4px rgba(0,0,0,0.1); margin-bottom: 10px; z-index: 100; }
        input { width: 100%; padding: 10px; font-size: 16px; border: 1px solid #ddd; border-radius: 4px; box-sizing: border-box; }
        .wine { background: white; margin: 10px 0; padding: 10px; border-radius: 8px; box-shadow: 0 2px 4px rgba(0,0,0,0.1); }
        .wine img { width: 100%; max-width: 400px; border-radius: 4px; }
        .rating { font-size: 32px; font-weight: bold; color: #d4af37; margin: 10px 0; }
        .comment { color: #666; font-style: italic; margin: 10px 0; font-size: 16px; }
    </style>
</head>
<body>
    <div class="search">
        <input type="text" id="searchInput" placeholder="Cerca vino..." onkeyup="filterWines()">
    </div>
    <div id="wines">
''\<close>

definition html_tail :: string where
  \<open>html_tail = ''
    </div>
    <script>
        function filterWines() {
            const input = document.getElementById('searchInput').value.toLowerCase();
            const wines = document.querySelectorAll('.wine');
            wines.forEach(wine => {
                const searchText = wine.getAttribute('data-search');
                wine.style.display = searchText.includes(input) ? 'block' : 'none';
            });
        }
    </script>
</body>
</html>
''\<close>

text \<open>The f-string appended for one record, with nothing escaped.\<close>

definition wine_block :: "wine \<Rightarrow> string \<Rightarrow> string" where
  \<open>wine_block wine img_base64 =
     ''
        <div class="wine" data-search="'' @ lower (comment wine) @ ''">
            <img src="data:image/jpeg;base64,'' @ img_base64 @ ''">
            <div class="rating">'' @ str_int (rating wine) @ ''/10</div>
            <div class="comment">'' @ comment wine @ ''</div>
        </div>
''\<close>

text \<open>
  \<open>sorted(xs, key=key, reverse=True)\<close>: a stable sort that keeps the original order
  of elements with equal keys also when reversed, which CPython does by sorting the
  reversed list and reversing the result. \<^const>\<open>sort_key\<close> is a stable sort.
\<close>

definition sorted_reverse :: "('a \<Rightarrow> int) \<Rightarrow> 'a list \<Rightarrow> 'a list" where
  "sorted_reverse key xs = rev (sort_key key (rev xs))"

text \<open>\<open>photo_path.exists()\<close>\<close>

definition exists_in :: "directory \<Rightarrow> string \<Rightarrow> bool" where
  "exists_in export_dir name = (export_dir name \<noteq> None)"

text \<open>The \<open>for\<close> loop over the sorted records, \<open>html\<close> being the text so far.\<close>

fun render_wines :: "wine list \<Rightarrow> directory \<Rightarrow> string \<Rightarrow> error + string" where
  "render_wines [] export_dir html = Inr html"
| "render_wines (wine # rest) export_dir html =
     (if exists_in export_dir (photo wine) then
        (case image_to_base64 export_dir (photo wine) of
           Inl e \<Rightarrow> Inl e
         | Inr img_base64 \<Rightarrow>
             render_wines rest export_dir (html @ wine_block wine img_base64))
      else render_wines rest export_dir html)"

definition generate_html :: "wine list \<Rightarrow> directory \<Rightarrow> error + string" where
  "generate_html wines export_dir =
     (case render_wines (sorted_reverse rating wines) export_dir html_head of
        Inl e \<Rightarrow> Inl e
      | Inr html \<Rightarrow> Inr (html @ html_tail))"

text \<open>
  The block that the loop appends for a record: none where the photo does not exist.
\<close>

definition block_of :: "directory \<Rightarrow> wine \<Rightarrow> string" where
  "block_of export_dir wine =
     (case export_dir (photo wine) of
        Some (Readable bytes) \<Rightarrow> wine_block wine (b64encode bytes)
      | _ \<Rightarrow> [])"

text \<open>
  The comment as the specification derives it from the text after the last \<open>]\<close>: a
  single leading run of digits removed with the whitespace after it, when the text
  starts with a digit; then the whitespace at both ends removed.
\<close>

definition spec_comment :: "string \<Rightarrow> string" where
  "spec_comment suffix =
     strip (if suffix \<noteq> [] \<and> is_digit (hd suffix)
            then dropWhile is_space (dropWhile is_digit suffix)
            else suffix)"

section \<open>The loop of parse_chat\<close>

text \<open>
  The loop appends, for each index in turn, the record that its body makes there.
\<close>

lemma parse_loop_eq:
  "parse_loop lines i wines = wines @ List.map_filter (scan_line lines) [i..<length lines]"
proof (induction lines i wines rule: parse_loop.induct)
  case (1 lines i wines)
  show ?case
  proof (cases "i < length lines")
    case True
    then have upt: "[i..<length lines] = i # [i + 1..<length lines]"
      by (simp add: upt_conv_Cons)
    show ?thesis
      using True "1.IH" [OF True]
      by (subst parse_loop.simps) (simp add: upt split: option.splits)
  next
    case False
    then show ?thesis
      by (subst parse_loop.simps) simp
  qed
qed

lemma parse_chat_eq:
  "parse_chat lines = List.map_filter (scan_line lines) [0..<length lines]"
  by (simp add: parse_chat_def parse_loop_eq)

lemma set_map_filter: "set (List.map_filter f xs) = {y. \<exists>x\<in>set xs. f x = Some y}"
  by (induction xs) (auto simp: List.map_filter_simps split: option.splits)

lemma parse_chat_mem:
  "w \<in> set (parse_chat lines) \<longleftrightarrow> (\<exists>i<length lines. scan_line lines i = Some w)"
  by (auto simp: parse_chat_eq set_map_filter)

text \<open>
  The text after the last separator, and the first run of digits in it: the run is the
  same in a line and in the line without the whitespace at its ends.
\<close>

lemma space_not_digit: "is_space c \<Longrightarrow> \<not> is_digit c"
  by (auto simp: is_space_def is_digit_def Let_def)

lemma split_char_not_Nil: "split_char sep s \<noteq> []"
  by (induction s) (auto split: list.splits)

lemma split_char_no_sep: "sep \<notin> set s \<Longrightarrow> split_char sep s = [s]"
  by (induction s) auto

lemma split_char_two: "sep \<in> set s \<Longrightarrow> \<exists>p q qs. split_char sep s = p # q # qs"
proof (induction s)
  case Nil
  then show ?case by simp
next
  case (Cons c cs)
  show ?case
  proof (cases "c = sep")
    case True
    then show ?thesis
      using split_char_not_Nil [of sep cs] by (cases "split_char sep cs") auto
  next
    case False
    with Cons show ?thesis by auto
  qed
qed

lemma last_split_char_Cons:
  "sep \<in> set cs \<Longrightarrow> last (split_char sep (c # cs)) = last (split_char sep cs)"
  using split_char_two [of sep cs] by auto

lemma last_split_char_append:
  "last (split_char sep (a @ sep # b)) = last (split_char sep b)"
proof (induction a)
  case Nil
  then show ?case by (simp add: split_char_not_Nil)
next
  case (Cons x a)
  have "sep \<in> set (a @ sep # b)" by simp
  from last_split_char_Cons [OF this] Cons show ?case by simp
qed

lemma last_split_char_after:
  "sep \<notin> set b \<Longrightarrow> last (split_char sep (a @ sep # b)) = b"
  by (simp add: last_split_char_append split_char_no_sep)

lemma last_split_char_eq:
  "last (split_char sep s) = rev (takeWhile (\<lambda>c. c \<noteq> sep) (rev s))"
proof (cases "sep \<in> set s")
  case True
  then obtain a b where s: "s = a @ sep # b" and b: "sep \<notin> set b"
    by (meson split_list_last)
  have tw: "takeWhile (\<lambda>c. c \<noteq> sep) (rev b @ sep # rev a) = rev b"
    using b by (auto simp: takeWhile_tail)
  have r: "rev s = rev b @ sep # rev a" by (simp add: s)
  have "last (split_char sep s) = b"
    unfolding s using b by (rule last_split_char_after)
  also have "b = rev (takeWhile (\<lambda>c. c \<noteq> sep) (rev s))"
    by (simp only: r tw rev_rev_ident)
  finally show ?thesis .
next
  case False
  have tw: "takeWhile (\<lambda>c. c \<noteq> sep) (rev s) = rev s"
    using False by (simp only: takeWhile_eq_all_conv set_rev) blast
  have "last (split_char sep s) = s"
    using False by (simp add: split_char_no_sep)
  also have "s = rev (takeWhile (\<lambda>c. c \<noteq> sep) (rev s))"
    by (simp only: tw rev_rev_ident)
  finally show ?thesis .
qed

lemma strip_decomp:
  "\<exists>w1 w2. s = w1 @ strip s @ w2 \<and> (\<forall>c\<in>set w1. is_space c) \<and> (\<forall>c\<in>set w2. is_space c)"
proof -
  let ?d = "dropWhile is_space s"
  let ?w1 = "takeWhile is_space s"
  let ?w2 = "rev (takeWhile is_space (rev ?d))"
  have "?d = rev (dropWhile is_space (rev ?d)) @ rev (takeWhile is_space (rev ?d))"
    by (metis rev_append rev_rev_ident takeWhile_dropWhile_id)
  then have "?d = strip s @ ?w2" by (simp add: strip_def)
  then have "s = ?w1 @ strip s @ ?w2"
    by (metis takeWhile_dropWhile_id)
  moreover have "\<forall>c\<in>set ?w1. is_space c" by (auto dest: set_takeWhileD)
  moreover have "\<forall>c\<in>set ?w2. is_space c" by (auto dest: set_takeWhileD)
  ultimately show ?thesis by blast
qed

lemma search_digits_None: "search_digits s = None \<longleftrightarrow> (\<forall>c\<in>set s. \<not> is_digit c)"
  by (induction s) auto

lemma search_digits_skip: "\<forall>c\<in>set w. \<not> is_digit c \<Longrightarrow> search_digits (w @ s) = search_digits s"
  by (induction w) auto

lemma search_digits_trail: "\<forall>c\<in>set w. \<not> is_digit c \<Longrightarrow> search_digits (s @ w) = search_digits s"
proof (induction s)
  case Nil
  then show ?case using search_digits_None [of w] by simp
next
  case (Cons c cs)
  have w: "takeWhile is_digit w = []"
    using Cons.prems by (cases w) auto
  have "takeWhile is_digit (cs @ w) = takeWhile is_digit cs"
  proof (cases "\<forall>x\<in>set cs. is_digit x")
    case True
    then have a: "takeWhile is_digit cs = cs" by simp
    have b: "takeWhile is_digit (cs @ w) = cs @ takeWhile is_digit w"
      using True by simp
    show ?thesis by (simp only: a b w append_Nil2)
  next
    case False
    then show ?thesis by (auto simp: takeWhile_append1)
  qed
  with Cons show ?case by simp
qed

lemma search_digits_strip:
  assumes "\<not> is_space sep"
  shows "search_digits (last (split_char sep (strip s))) = search_digits (last (split_char sep s))"
proof -
  obtain w1 w2 where s: "s = w1 @ strip s @ w2"
    and w1: "\<forall>c\<in>set w1. is_space c" and w2: "\<forall>c\<in>set w2. is_space c"
    using strip_decomp by blast
  have nd1: "\<forall>c\<in>set w1. \<not> is_digit c" and nd2: "\<forall>c\<in>set w2. \<not> is_digit c"
    using w1 w2 space_not_digit by blast+
  have ns1: "sep \<notin> set w1" and ns2: "sep \<notin> set w2"
    using w1 w2 assms by blast+
  show ?thesis
  proof (cases "sep \<in> set (strip s)")
    case True
    then obtain a b where m: "strip s = a @ sep # b" and b: "sep \<notin> set b"
      by (meson split_list_last)
    have "s = (w1 @ a) @ sep # (b @ w2)" using s m by simp
    moreover have "sep \<notin> set (b @ w2)" using b ns2 by simp
    ultimately have "last (split_char sep s) = b @ w2"
      using last_split_char_after by metis
    moreover have "last (split_char sep (strip s)) = b"
      using m b last_split_char_after by metis
    ultimately show ?thesis by (simp add: search_digits_trail nd2)
  next
    case False
    then have "sep \<notin> set s" using s ns1 ns2
      by (metis Un_iff set_append)
    then have "last (split_char sep s) = w1 @ strip s @ w2"
      using s by (simp add: split_char_no_sep)
    moreover have "last (split_char sep (strip s)) = strip s"
      using False by (simp add: split_char_no_sep)
    ultimately show ?thesis
      by (simp add: search_digits_skip nd1 search_digits_trail nd2)
  qed
qed

lemma bracket_not_space: "\<not> is_space CHR '']''"
  by (simp add: is_space_def)

text \<open>What holds when the body of the loop makes a record.\<close>

lemma scan_line_SomeD:
  assumes "scan_line lines i = Some w"
  shows "i + 1 < length lines"
    and "str_in ''<attached:'' (strip (lines ! i))"
    and "str_in ''.jpg'' (lower (strip (lines ! i)))"
    and "search_attached (strip (lines ! i)) = Some (photo w)"
    and "\<exists>ds. search_digits (last (split_char CHR '']'' (strip (lines ! (i + 1))))) = Some ds \<and>
           rating w = (if int_of_digits ds > 10 then 10 else int_of_digits ds)"
    and "comment w = strip (sub_leading_digits (last (split_char CHR '']'' (strip (lines ! (i + 1))))))"
  using assms
  by (auto simp: scan_line_def Let_def split: if_splits option.splits)

lemma search_digits_run:
  "search_digits s = Some ds \<Longrightarrow>
     \<exists>pre post. s = pre @ ds @ post \<and> (\<forall>c\<in>set pre. \<not> is_digit c) \<and> ds \<noteq> [] \<and>
       (\<forall>c\<in>set ds. is_digit c) \<and> (post = [] \<or> \<not> is_digit (hd post))"
proof (induction s)
  case Nil
  then show ?case by simp
next
  case (Cons c cs)
  show ?case
  proof (cases "is_digit c")
    case True
    with Cons.prems have ds: "ds = takeWhile is_digit (c # cs)" by simp
    have "c # cs = [] @ ds @ dropWhile is_digit (c # cs)"
      unfolding ds by simp
    moreover have "ds \<noteq> []" using True ds by simp
    moreover have "\<forall>x\<in>set ds. is_digit x"
      unfolding ds by (auto dest: set_takeWhileD)
    moreover have "dropWhile is_digit (c # cs) = [] \<or> \<not> is_digit (hd (dropWhile is_digit (c # cs)))"
      using hd_dropWhile [of is_digit "c # cs"] by blast
    ultimately show ?thesis by (metis empty_iff list.set(1))
  next
    case False
    with Cons.prems have "search_digits cs = Some ds" by simp
    from Cons.IH [OF this] obtain pre post where
      "cs = pre @ ds @ post" "\<forall>c\<in>set pre. \<not> is_digit c" "ds \<noteq> []"
      "\<forall>c\<in>set ds. is_digit c" "post = [] \<or> \<not> is_digit (hd post)"
      by blast
    then have "c # cs = (c # pre) @ ds @ post \<and> (\<forall>x\<in>set (c # pre). \<not> is_digit x)"
      using False by simp
    then show ?thesis
      using \<open>ds \<noteq> []\<close> \<open>\<forall>c\<in>set ds. is_digit c\<close> \<open>post = [] \<or> \<not> is_digit (hd post)\<close>
      by blast
  qed
qed

lemma digit_value_nonneg: "is_digit c \<Longrightarrow> 0 \<le> digit_value c"
  by (simp add: is_digit_def digit_value_def Let_def)

lemma foldl_digits_nonneg:
  "0 \<le> acc \<Longrightarrow> \<forall>c\<in>set ds. is_digit c \<Longrightarrow>
     0 \<le> foldl (\<lambda>acc c. 10 * acc + digit_value c) acc ds"
proof (induction ds arbitrary: acc)
  case Nil
  then show ?case by simp
next
  case (Cons d ds)
  have "0 \<le> 10 * acc + digit_value d"
    using Cons.prems digit_value_nonneg [of d] by simp
  with Cons show ?case by simp
qed

lemma int_of_digits_nonneg: "\<forall>c\<in>set ds. is_digit c \<Longrightarrow> 0 \<le> int_of_digits ds"
  by (simp add: int_of_digits_def foldl_digits_nonneg)

text \<open>Substrings, and what a match of the attachment pattern says about the line.\<close>

lemma starts_with_iff: "starts_with p s \<longleftrightarrow> (\<exists>b. s = p @ b)"
  by (induction p s rule: starts_with.induct) auto

lemma str_in_iff: "str_in p s \<longleftrightarrow> (\<exists>a b. s = a @ p @ b)"
proof (induction s)
  case Nil
  then show ?case by auto
next
  case (Cons c cs)
  have pre: "starts_with p (c # cs) \<longleftrightarrow> (\<exists>b. c # cs = p @ b)"
    by (rule starts_with_iff)
  show ?case
  proof
    assume "str_in p (c # cs)"
    then consider "starts_with p (c # cs)" | "str_in p cs" by auto
    then show "\<exists>a b. c # cs = a @ p @ b"
    proof cases
      case 1
      then obtain b where "c # cs = [] @ p @ b" using pre by auto
      then show ?thesis by blast
    next
      case 2
      then obtain a b where "cs = a @ p @ b" using Cons.IH by blast
      then have "c # cs = (c # a) @ p @ b" by simp
      then show ?thesis by blast
    qed
  next
    assume "\<exists>a b. c # cs = a @ p @ b"
    then obtain a b where ab: "c # cs = a @ p @ b" by blast
    show "str_in p (c # cs)"
    proof (cases a)
      case Nil
      with ab have "\<exists>b. c # cs = p @ b" by auto
      then have "starts_with p (c # cs)" using pre by blast
      then show ?thesis by simp
    next
      case (Cons x a')
      with ab have "cs = a' @ p @ b" by simp
      then show ?thesis using Cons.IH by auto
    qed
  qed
qed

lemma str_in_mono: "str_in p s \<Longrightarrow> str_in p (u @ s @ v)"
proof -
  assume "str_in p s"
  then obtain a b where "s = a @ p @ b" using str_in_iff by blast
  then have "u @ s @ v = (u @ a) @ p @ (b @ v)" by simp
  then show ?thesis using str_in_iff by blast
qed

lemma lazy_until_gt_Some:
  "lazy_until_gt s = Some g \<Longrightarrow> \<exists>post. s = g @ ''>'' @ post"
proof (induction s arbitrary: g)
  case Nil
  then show ?case by simp
next
  case (Cons c cs)
  then show ?case by (auto split: if_splits)
qed

lemma match_attached_Some:
  assumes "match_attached s = Some g"
  shows "\<exists>post. s = ''<attached: '' @ g @ ''>'' @ post" and "g \<noteq> []"
proof -
  from assms have t: "take 11 s = ''<attached: ''"
    by (auto simp: match_attached_def split: if_splits)
  from assms obtain c cs g' where d: "drop 11 s = c # cs" and g: "g = c # g'"
    and l: "lazy_until_gt cs = Some g'"
    by (auto simp: match_attached_def split: if_splits list.splits)
  from lazy_until_gt_Some [OF l] obtain post where "cs = g' @ ''>'' @ post" by blast
  then have "drop 11 s = g @ ''>'' @ post" using d g by simp
  moreover have "s = take 11 s @ drop 11 s" by simp
  ultimately have "s = ''<attached: '' @ g @ ''>'' @ post" using t by metis
  then show "\<exists>post. s = ''<attached: '' @ g @ ''>'' @ post" by blast
  show "g \<noteq> []" using g by simp
qed

lemma search_attached_Some:
  "search_attached s = Some g \<Longrightarrow>
     (\<exists>pre post. s = pre @ ''<attached: '' @ g @ ''>'' @ post) \<and> g \<noteq> []"
proof (induction s)
  case Nil
  then show ?case by simp
next
  case (Cons c cs)
  show ?case
  proof (cases "match_attached (c # cs)")
    case None
    with Cons.prems have "search_attached cs = Some g" by simp
    from Cons.IH [OF this] obtain pre post where
      "cs = pre @ ''<attached: '' @ g @ ''>'' @ post" and "g \<noteq> []" by blast
    then have "c # cs = (c # pre) @ ''<attached: '' @ g @ ''>'' @ post" by simp
    then show ?thesis using \<open>g \<noteq> []\<close> by blast
  next
    case (Some g')
    with Cons.prems have "g' = g" by simp
    with Some match_attached_Some [of "c # cs" g] obtain post where
      "c # cs = [] @ ''<attached: '' @ g @ ''>'' @ post" and "g \<noteq> []" by auto
    then show ?thesis by blast
  qed
qed

lemma lower_append: "lower (a @ b) = lower a @ lower b"
  by (simp add: lower_def)

section \<open>Ratings\<close>

text \<open>
  C1. Every record that \<open>parse_chat\<close> returns has a rating of at most 10; the record
  made at line \<open>i\<close> has the integer value of the first run of decimal digits found
  after the last \<open>]\<close> of line \<open>i + 1\<close> when that value is at most 10, and 10 when it
  is more. The run is the same whether it is looked for in the line as read or in
  the line with the whitespace at its ends removed, as the code does.
\<close>

theorem rating_clamped_to_ten:
  "(w \<in> set (parse_chat lines) \<longrightarrow> rating w \<le> 10) \<and>
   (scan_line lines i = Some w \<longrightarrow>
      (\<exists>pre ds post.
         last (split_char CHR '']'' (lines ! (i + 1))) = pre @ ds @ post \<and>
         (\<forall>c\<in>set pre. \<not> is_digit c) \<and> ds \<noteq> [] \<and> (\<forall>c\<in>set ds. is_digit c) \<and>
         (post = [] \<or> \<not> is_digit (hd post)) \<and>
         rating w = (if int_of_digits ds \<le> 10 then int_of_digits ds else 10)))"
proof (intro conjI impI)
  assume "w \<in> set (parse_chat lines)"
  then obtain j where "scan_line lines j = Some w"
    using parse_chat_mem by blast
  from scan_line_SomeD(5) [OF this] show "rating w \<le> 10"
    by (auto split: if_splits)
next
  assume "scan_line lines i = Some w"
  from scan_line_SomeD(5) [OF this] obtain ds where
    "search_digits (last (split_char CHR '']'' (strip (lines ! (i + 1))))) = Some ds"
    and r: "rating w = (if int_of_digits ds > 10 then 10 else int_of_digits ds)"
    by blast
  then have "search_digits (last (split_char CHR '']'' (lines ! (i + 1)))) = Some ds"
    by (simp add: search_digits_strip bracket_not_space)
  from search_digits_run [OF this] obtain pre post where
    "last (split_char CHR '']'' (lines ! (i + 1))) = pre @ ds @ post"
    "\<forall>c\<in>set pre. \<not> is_digit c" "ds \<noteq> []" "\<forall>c\<in>set ds. is_digit c"
    "post = [] \<or> \<not> is_digit (hd post)"
    by blast
  moreover have "rating w = (if int_of_digits ds \<le> 10 then int_of_digits ds else 10)"
    using r by simp
  ultimately show "\<exists>pre ds post.
         last (split_char CHR '']'' (lines ! (i + 1))) = pre @ ds @ post \<and>
         (\<forall>c\<in>set pre. \<not> is_digit c) \<and> ds \<noteq> [] \<and> (\<forall>c\<in>set ds. is_digit c) \<and>
         (post = [] \<or> \<not> is_digit (hd post)) \<and>
         rating w = (if int_of_digits ds \<le> 10 then int_of_digits ds else 10)"
    by blast
qed

text \<open>A rating line that says 15: the record is made with rating 10.\<close>

theorem rating_clamped_to_ten_witness:
  "scan_line [''<attached: photo1.jpg>\<newline>'', ''[12:01] 15 excellent\<newline>''] 0 =
     Some \<lparr>photo = ''photo1.jpg'', rating = 10, comment = ''15 excellent''\<rparr> \<and>
   \<lparr>photo = ''photo1.jpg'', rating = 10, comment = ''15 excellent''\<rparr>
     \<in> set (parse_chat [''<attached: photo1.jpg>\<newline>'', ''[12:01] 15 excellent\<newline>'']) \<and>
   rating \<lparr>photo = ''photo1.jpg'', rating = 10, comment = ''15 excellent''\<rparr> \<le> 10 \<and>
   search_digits (last (split_char CHR '']''
     ([''<attached: photo1.jpg>\<newline>'', ''[12:01] 15 excellent\<newline>''] ! (0 + 1)))) = Some ''15'' \<and>
   int_of_digits ''15'' = 15 \<and>
   (\<exists>pre ds post.
      last (split_char CHR '']''
        ([''<attached: photo1.jpg>\<newline>'', ''[12:01] 15 excellent\<newline>''] ! (0 + 1))) =
        pre @ ds @ post \<and>
      list_all (\<lambda>c. \<not> is_digit c) pre \<and> ds \<noteq> [] \<and> list_all is_digit ds \<and>
      (post = [] \<or> \<not> is_digit (hd post)) \<and>
      rating \<lparr>photo = ''photo1.jpg'', rating = 10, comment = ''15 excellent''\<rparr> =
        (if int_of_digits ds \<le> 10 then int_of_digits ds else 10))"
proof -
  let ?L = "[''<attached: photo1.jpg>\<newline>'', ''[12:01] 15 excellent\<newline>'']"
  let ?W = "\<lparr>photo = ''photo1.jpg'', rating = 10, comment = ''15 excellent''\<rparr>"
  have h1: "scan_line ?L 0 = Some ?W" by code_simp
  have h2: "?W \<in> set (parse_chat ?L)" by code_simp
  have h3: "search_digits (last (split_char CHR '']'' (?L ! (0 + 1)))) = Some ''15''"
    by code_simp
  have h4: "int_of_digits ''15'' = 15" by code_simp
  show ?thesis
    using h1 h2 h3 h4 rating_clamped_to_ten [of ?W ?L 0]
    unfolding list_all_iff by blast
qed

text \<open>
  C9. Every record that \<open>parse_chat\<close> returns has a rating from 0 to 10: the rating is
  read from a run of decimal digits, which has no sign, so it is never negative.
\<close>

theorem rating_never_negative:
  "w \<in> set (parse_chat lines) \<Longrightarrow> 0 \<le> rating w \<and> rating w \<le> 10"
proof -
  assume "w \<in> set (parse_chat lines)"
  then obtain j where "scan_line lines j = Some w"
    using parse_chat_mem by blast
  from scan_line_SomeD(5) [OF this] obtain ds where
    s: "search_digits (last (split_char CHR '']'' (strip (lines ! (j + 1))))) = Some ds"
    and r: "rating w = (if int_of_digits ds > 10 then 10 else int_of_digits ds)"
    by blast
  from search_digits_run [OF s] have "\<forall>c\<in>set ds. is_digit c" by blast
  then have "0 \<le> int_of_digits ds" by (rule int_of_digits_nonneg)
  with r show ?thesis by simp
qed

text \<open>A rating line that says 000: the record is made with rating 0.\<close>

theorem rating_never_negative_witness:
  "\<lparr>photo = ''p.jpg'', rating = 0, comment = ''undrinkable''\<rparr>
     \<in> set (parse_chat [''<attached: p.jpg>\<newline>'', ''000 undrinkable\<newline>'']) \<and>
   0 \<le> rating \<lparr>photo = ''p.jpg'', rating = 0, comment = ''undrinkable''\<rparr> \<and>
   rating \<lparr>photo = ''p.jpg'', rating = 0, comment = ''undrinkable''\<rparr> \<le> 10"
proof -
  let ?L = "[''<attached: p.jpg>\<newline>'', ''000 undrinkable\<newline>'']"
  let ?W = "\<lparr>photo = ''p.jpg'', rating = 0, comment = ''undrinkable''\<rparr>"
  have h: "?W \<in> set (parse_chat ?L)" by code_simp
  show ?thesis
    using h rating_never_negative [OF h] by blast
qed

text \<open>
  C6. When line \<open>i + 1\<close> exists and has no decimal digit after its last \<open>]\<close>, the loop
  makes no record at line \<open>i\<close>: it goes on to line \<open>i + 1\<close> with the records it had,
  and nothing is raised.
\<close>

theorem no_digits_no_record:
  assumes "i + 1 < length lines"
    and "\<forall>c\<in>set (last (split_char CHR '']'' (lines ! (i + 1)))). \<not> is_digit c"
  shows "scan_line lines i = None \<and> parse_loop lines i wines = parse_loop lines (i + 1) wines"
proof -
  have "search_digits (last (split_char CHR '']'' (lines ! (i + 1)))) = None"
    using assms(2) by (simp add: search_digits_None)
  then have "search_digits (last (split_char CHR '']'' (strip (lines ! (i + 1))))) = None"
    by (simp add: search_digits_strip bracket_not_space)
  then have n: "scan_line lines i = None"
    by (simp add: scan_line_def Let_def split: option.splits)
  have "i < length lines" using assms(1) by simp
  then have "parse_loop lines i wines = parse_loop lines (i + 1) wines"
    using n by (subst parse_loop.simps) simp
  with n show ?thesis by simp
qed

text \<open>An attachment followed by a line without a digit, and one more line.\<close>

theorem no_digits_no_record_witness:
  "0 + 1 < length [''<attached: a.jpg>\<newline>'', ''[12:01] no number here\<newline>'', ''bye\<newline>''] \<and>
   list_all (\<lambda>c. \<not> is_digit c) (last (split_char CHR '']''
      ([''<attached: a.jpg>\<newline>'', ''[12:01] no number here\<newline>'', ''bye\<newline>''] ! (0 + 1)))) \<and>
   scan_line [''<attached: a.jpg>\<newline>'', ''[12:01] no number here\<newline>'', ''bye\<newline>''] 0 = None \<and>
   parse_loop [''<attached: a.jpg>\<newline>'', ''[12:01] no number here\<newline>'', ''bye\<newline>''] 0 [] =
     parse_loop [''<attached: a.jpg>\<newline>'', ''[12:01] no number here\<newline>'', ''bye\<newline>''] (0 + 1) []"
proof -
  let ?L = "[''<attached: a.jpg>\<newline>'', ''[12:01] no number here\<newline>'', ''bye\<newline>'']"
  have h1: "0 + 1 < length ?L" by simp
  have h2: "list_all (\<lambda>c. \<not> is_digit c) (last (split_char CHR '']'' (?L ! (0 + 1))))"
    by code_simp
  then have h3: "\<forall>c\<in>set (last (split_char CHR '']'' (?L ! (0 + 1)))). \<not> is_digit c"
    by (simp only: list_all_iff)
  show ?thesis
    using h1 h2 no_digits_no_record [OF h1 h3, of "[]"] by blast
qed

text \<open>
  C8. The last line of a transcript makes no record, whatever it holds, an attachment
  marker included: the loop ends there with the records it had, and all the records
  of \<open>parse_chat\<close> come from the lines before it.
\<close>

theorem final_line_no_record:
  "scan_line (ls @ [l]) (length ls) = None \<and>
   parse_loop (ls @ [l]) (length ls) wines = wines \<and>
   parse_chat (ls @ [l]) = List.map_filter (scan_line (ls @ [l])) [0..<length ls]"
proof -
  have n: "scan_line (ls @ [l]) (length ls) = None"
    by (simp add: scan_line_def Let_def split: option.splits)
  have "parse_loop (ls @ [l]) (length ls) wines = parse_loop (ls @ [l]) (length ls + 1) wines"
    using n by (subst parse_loop.simps) simp
  also have "\<dots> = wines"
    by (subst parse_loop.simps) simp
  finally have p: "parse_loop (ls @ [l]) (length ls) wines = wines" .
  have "parse_chat (ls @ [l]) = List.map_filter (scan_line (ls @ [l])) [0..<length ls]"
    using n by (simp add: parse_chat_eq List.map_filter_def)
  with n p show ?thesis by simp
qed

text \<open>A transcript that ends with an attachment line has no record.\<close>

theorem final_line_no_record_witness:
  "scan_line ([''hello\<newline>''] @ [''<attached: last.jpg>\<newline>'']) (length [''hello\<newline>'']) = None \<and>
   parse_chat ([''hello\<newline>''] @ [''<attached: last.jpg>\<newline>'']) = []"
proof -
  have "List.map_filter (scan_line ([''hello\<newline>''] @ [''<attached: last.jpg>\<newline>'']))
          [0..<length [''hello\<newline>'']] = []"
    by code_simp
  then show ?thesis
    using final_line_no_record [of "[''hello\<newline>'']" "''<attached: last.jpg>\<newline>''" "[]"]
    by simp
qed

section \<open>Attachment lines and comments\<close>

lemma sub_leading_digits_eq:
  "sub_leading_digits s =
     (if s \<noteq> [] \<and> is_digit (hd s) then dropWhile is_space (dropWhile is_digit s) else s)"
  by (cases s) (simp_all add: sub_leading_digits_def)

lemma strip_Nil: "strip [] = []"
  by (simp add: strip_def)

text \<open>
  C2 as the specification states it asks that the file name inside the marker holds
  \<open>.jpg\<close>. The code looks for \<open>.jpg\<close> in the whole line: a line whose marker names
  \<open>bar.png\<close> and whose text mentions \<open>x.jpg\<close> makes a record for \<open>bar.png\<close>.
\<close>

theorem attachment_test_on_line_counterexample:
  "parse_chat [''<attached: bar.png> see x.jpg\<newline>'', ''7 nice\<newline>''] =
     [\<lparr>photo = ''bar.png'', rating = 7, comment = ''nice''\<rparr>] \<and>
   search_attached ''<attached: bar.png> see x.jpg\<newline>'' = Some ''bar.png'' \<and>
   \<not> str_in ''.jpg'' (lower ''bar.png'')"
  by code_simp

text \<open>
  C2, amended. A record is made at line \<open>i\<close> only if the line holds a marker
  \<open><attached: FILENAME>\<close> with the record's photo as its non-empty FILENAME, and the
  line as a whole holds \<open>.jpg\<close> in some mix of upper and lower case; a line that
  holds \<open>.jpg\<close> nowhere is passed over: no record, and the loop goes on to the next
  line with the records it had.
\<close>

theorem attachment_test_on_line:
  "(scan_line lines i = Some w \<longrightarrow>
      (\<exists>pre post. lines ! i = pre @ ''<attached: '' @ photo w @ ''>'' @ post) \<and>
      photo w \<noteq> [] \<and> str_in ''.jpg'' (lower (lines ! i))) \<and>
   (i < length lines \<and> \<not> str_in ''.jpg'' (lower (lines ! i)) \<longrightarrow>
      scan_line lines i = None \<and> parse_loop lines i wines = parse_loop lines (i + 1) wines)"
proof -
  obtain w1 w2 where s: "lines ! i = w1 @ strip (lines ! i) @ w2"
    using strip_decomp by blast
  have jpg: "str_in ''.jpg'' (lower (strip (lines ! i))) \<Longrightarrow> str_in ''.jpg'' (lower (lines ! i))"
  proof -
    assume "str_in ''.jpg'' (lower (strip (lines ! i)))"
    then have "str_in ''.jpg'' (lower w1 @ lower (strip (lines ! i)) @ lower w2)"
      by (rule str_in_mono)
    then show ?thesis using s by (metis lower_append)
  qed
  have a: "scan_line lines i = Some w \<longrightarrow>
      (\<exists>pre post. lines ! i = pre @ ''<attached: '' @ photo w @ ''>'' @ post) \<and>
      photo w \<noteq> [] \<and> str_in ''.jpg'' (lower (lines ! i))"
  proof
    assume h: "scan_line lines i = Some w"
    from search_attached_Some [OF scan_line_SomeD(4) [OF h]] obtain pre post where
      m: "strip (lines ! i) = pre @ ''<attached: '' @ photo w @ ''>'' @ post"
      and ne: "photo w \<noteq> []" by blast
    have "lines ! i = (w1 @ pre) @ ''<attached: '' @ photo w @ ''>'' @ (post @ w2)"
      by (subst s, subst m) simp
    then have "\<exists>pre post. lines ! i = pre @ ''<attached: '' @ photo w @ ''>'' @ post"
      by blast
    with ne jpg [OF scan_line_SomeD(3) [OF h]] show
      "(\<exists>pre post. lines ! i = pre @ ''<attached: '' @ photo w @ ''>'' @ post) \<and>
       photo w \<noteq> [] \<and> str_in ''.jpg'' (lower (lines ! i))"
      by blast
  qed
  have b: "i < length lines \<and> \<not> str_in ''.jpg'' (lower (lines ! i)) \<longrightarrow>
      scan_line lines i = None \<and> parse_loop lines i wines = parse_loop lines (i + 1) wines"
  proof
    assume h: "i < length lines \<and> \<not> str_in ''.jpg'' (lower (lines ! i))"
    then have "\<not> str_in ''.jpg'' (lower (strip (lines ! i)))" using jpg by blast
    then have n: "scan_line lines i = None"
      by (simp add: scan_line_def Let_def)
    then have "parse_loop lines i wines = parse_loop lines (i + 1) wines"
      using h by (subst parse_loop.simps) simp
    with n show "scan_line lines i = None \<and> parse_loop lines i wines = parse_loop lines (i + 1) wines"
      by simp
  qed
  from a b show ?thesis by blast
qed

text \<open>An attachment named in upper case makes a record; a video attachment makes none.\<close>

theorem attachment_test_on_line_witness:
  "scan_line [''<attached: IMG-0042.JPG>\<newline>'', ''[12:01] 8 Lovely nebbiolo\<newline>''] 0 =
     Some \<lparr>photo = ''IMG-0042.JPG'', rating = 8, comment = ''8 Lovely nebbiolo''\<rparr> \<and>
   (\<exists>pre post. [''<attached: IMG-0042.JPG>\<newline>'', ''[12:01] 8 Lovely nebbiolo\<newline>''] ! 0 =
      pre @ ''<attached: '' @ photo \<lparr>photo = ''IMG-0042.JPG'', rating = 8, comment = ''8 Lovely nebbiolo''\<rparr>
        @ ''>'' @ post) \<and>
   str_in ''.jpg'' (lower ([''<attached: IMG-0042.JPG>\<newline>'', ''[12:01] 8 Lovely nebbiolo\<newline>''] ! 0)) \<and>
   0 < length [''<attached: clip.mp4>\<newline>'', ''9 fun\<newline>''] \<and>
   \<not> str_in ''.jpg'' (lower ([''<attached: clip.mp4>\<newline>'', ''9 fun\<newline>''] ! 0)) \<and>
   scan_line [''<attached: clip.mp4>\<newline>'', ''9 fun\<newline>''] 0 = None \<and>
   parse_loop [''<attached: clip.mp4>\<newline>'', ''9 fun\<newline>''] 0 [] =
     parse_loop [''<attached: clip.mp4>\<newline>'', ''9 fun\<newline>''] (0 + 1) []"
proof -
  let ?L = "[''<attached: IMG-0042.JPG>\<newline>'', ''[12:01] 8 Lovely nebbiolo\<newline>'']"
  let ?W = "\<lparr>photo = ''IMG-0042.JPG'', rating = 8, comment = ''8 Lovely nebbiolo''\<rparr>"
  let ?M = "[''<attached: clip.mp4>\<newline>'', ''9 fun\<newline>'']"
  have h1: "scan_line ?L 0 = Some ?W" by code_simp
  have h2: "0 < length ?M" by simp
  have h3: "\<not> str_in ''.jpg'' (lower (?M ! 0))" by code_simp
  show ?thesis
    using h1 h2 h3 attachment_test_on_line [of ?L 0 ?W "[]"]
      attachment_test_on_line [of ?M 0 ?W "[]"]
    by blast
qed

text \<open>
  C3 as the specification states it takes the text after the last \<open>]\<close> of the rating
  line. The code removes the whitespace at both ends of the line first: a rating line
  without \<open>]\<close> that starts with a blank and then a digit has its digit run removed,
  where the specification's rule, on the line as it is, keeps it.
\<close>

theorem comment_from_raw_line_counterexample:
  "parse_chat [''<attached: a.jpg>\<newline>'', '' 5 good\<newline>''] =
     [\<lparr>photo = ''a.jpg'', rating = 5, comment = ''good''\<rparr>] \<and>
   last (split_char CHR '']'' ([''<attached: a.jpg>\<newline>'', '' 5 good\<newline>''] ! (0 + 1))) = '' 5 good\<newline>'' \<and>
   spec_comment '' 5 good\<newline>'' = ''5 good''"
  by code_simp

text \<open>
  C3, amended. The comment of the record made at line \<open>i\<close> is what the specification's
  rule gives on the text after the last \<open>]\<close> of line \<open>i + 1\<close> with the whitespace at
  its ends removed: a run of digits at the very start goes with the whitespace after
  it, otherwise nothing goes, and the whitespace at the ends of the rest is removed;
  when that text is digits only, the comment is empty.
\<close>

theorem comment_from_trimmed_line:
  "scan_line lines i = Some w \<Longrightarrow>
     comment w = spec_comment (last (split_char CHR '']'' (strip (lines ! (i + 1))))) \<and>
     (list_all is_digit (last (split_char CHR '']'' (strip (lines ! (i + 1))))) \<longrightarrow> comment w = [])"
proof -
  assume h: "scan_line lines i = Some w"
  let ?s = "last (split_char CHR '']'' (strip (lines ! (i + 1))))"
  have c: "comment w = spec_comment ?s"
    using scan_line_SomeD(6) [OF h]
    by (simp add: spec_comment_def sub_leading_digits_eq)
  have "list_all is_digit ?s \<longrightarrow> comment w = []"
  proof
    assume a: "list_all is_digit ?s"
    then have d: "dropWhile is_digit ?s = []" by (simp add: list_all_iff)
    from scan_line_SomeD(5) [OF h] obtain ds where "search_digits ?s = Some ds" by blast
    then have "?s \<noteq> []" by auto
    with a have "?s \<noteq> [] \<and> is_digit (hd ?s)" by (cases ?s) simp_all
    then have "spec_comment ?s = strip (dropWhile is_space (dropWhile is_digit ?s))"
      by (simp add: spec_comment_def)
    also have "\<dots> = []" by (simp only: d dropWhile.simps strip_Nil)
    finally show "comment w = []" using c by simp
  qed
  with c show ?thesis by simp
qed

text \<open>A rating followed by a comment, and a rating line of one digit.\<close>

theorem comment_from_trimmed_line_witness:
  "scan_line [''<attached: a.jpg>\<newline>'', ''[12:01]8   Lovely nebbiolo \<newline>'', ''<attached: b.jpg>\<newline>'', ''[12:05]7\<newline>''] 0 =
     Some \<lparr>photo = ''a.jpg'', rating = 8, comment = ''Lovely nebbiolo''\<rparr> \<and>
   scan_line [''<attached: a.jpg>\<newline>'', ''[12:01]8   Lovely nebbiolo \<newline>'', ''<attached: b.jpg>\<newline>'', ''[12:05]7\<newline>''] 2 =
     Some \<lparr>photo = ''b.jpg'', rating = 7, comment = ''''\<rparr> \<and>
   list_all is_digit (last (split_char CHR '']'' (strip
     ([''<attached: a.jpg>\<newline>'', ''[12:01]8   Lovely nebbiolo \<newline>'', ''<attached: b.jpg>\<newline>'', ''[12:05]7\<newline>''] ! (2 + 1))))) \<and>
   comment \<lparr>photo = ''a.jpg'', rating = 8, comment = ''Lovely nebbiolo''\<rparr> =
     spec_comment (last (split_char CHR '']'' (strip
       ([''<attached: a.jpg>\<newline>'', ''[12:01]8   Lovely nebbiolo \<newline>'', ''<attached: b.jpg>\<newline>'', ''[12:05]7\<newline>''] ! (0 + 1))))) \<and>
   comment \<lparr>photo = ''b.jpg'', rating = 7, comment = ''''\<rparr> = []"
proof -
  let ?L = "[''<attached: a.jpg>\<newline>'', ''[12:01]8   Lovely nebbiolo \<newline>'', ''<attached: b.jpg>\<newline>'', ''[12:05]7\<newline>'']"
  have h1: "scan_line ?L 0 = Some \<lparr>photo = ''a.jpg'', rating = 8, comment = ''Lovely nebbiolo''\<rparr>"
    by code_simp
  have h2: "scan_line ?L 2 = Some \<lparr>photo = ''b.jpg'', rating = 7, comment = ''''\<rparr>"
    by code_simp
  have h3: "list_all is_digit (last (split_char CHR '']'' (strip (?L ! (2 + 1)))))"
    by code_simp
  show ?thesis
    using h1 h2 h3 comment_from_trimmed_line [OF h1] comment_from_trimmed_line [OF h2]
    by blast
qed

section \<open>The loop of generate_html\<close>

text \<open>
  The only error of \<open>generate_html\<close> is that of a photo that exists and cannot be
  read; otherwise the document is the head, the blocks of the sorted records, and the
  tail. Leaving out the records without a photo commutes with the sort.
\<close>

lemma block_of_None: "dir (photo w) = None \<Longrightarrow> block_of dir w = []"
  by (simp add: block_of_def)

lemma block_of_Readable:
  "dir (photo w) = Some (Readable bytes) \<Longrightarrow> block_of dir w = wine_block w (b64encode bytes)"
  by (simp add: block_of_def)

lemma render_wines_char:
  "render_wines ws dir html =
     (if \<exists>w\<in>set ws. dir (photo w) = Some Unreadable then Inl OSError
      else Inr (html @ concat (map (block_of dir) ws)))"
proof (induction ws arbitrary: html)
  case Nil
  then show ?case by simp
next
  case (Cons w ws)
  show ?case
  proof (cases "dir (photo w)")
    case None
    then show ?thesis
      using Cons.IH [of html] by (simp add: exists_in_def block_of_None)
  next
    case (Some e)
    show ?thesis
    proof (cases e)
      case (Readable bytes)
      with Some show ?thesis
        using Cons.IH [of "html @ wine_block w (b64encode bytes)"]
        by (simp add: exists_in_def block_of_Readable image_to_base64_def)
    next
      case Unreadable
      with Some show ?thesis
        by (simp add: exists_in_def image_to_base64_def)
    qed
  qed
qed

lemma generate_html_char:
  "generate_html wines dir =
     (if \<exists>w\<in>set wines. dir (photo w) = Some Unreadable then Inl OSError
      else Inr (html_head @ concat (map (block_of dir) (sorted_reverse rating wines)) @ html_tail))"
  by (simp add: generate_html_def render_wines_char sorted_reverse_def)

lemma block_of_missing: "\<not> exists_in dir (photo w) \<Longrightarrow> block_of dir w = []"
  by (simp add: exists_in_def block_of_None)

lemma concat_blocks_filter:
  "concat (map (block_of dir) (filter (\<lambda>w. exists_in dir (photo w)) ws)) =
   concat (map (block_of dir) ws)"
  by (induction ws) (simp_all add: block_of_missing)


lemma sorted_reverse_descending:
  "sorted_wrt (\<lambda>a b. key a \<ge> key b) (sorted_reverse key ws)"
proof -
  have "sorted (map key (sort_key key (rev ws)))" by simp
  then have "sorted_wrt (\<lambda>a b. key a \<le> key b) (sort_key key (rev ws))"
    by (simp add: sorted_map)
  then show ?thesis
    by (simp add: sorted_reverse_def sorted_wrt_rev)
qed

lemma sorted_reverse_stable:
  "filter (\<lambda>w. key w = k) (sorted_reverse key ws) = filter (\<lambda>w. key w = k) ws"
  by (simp add: sorted_reverse_def rev_filter [symmetric] sort_key_stable)

lemma sorted_reverse_single: "sorted_reverse key [x] = [x]"
  by (simp add: sorted_reverse_def)

section \<open>The order of the blocks\<close>

text \<open>
  C4. The document is the head, then the blocks of the records whose photo exists, then
  the tail. The blocks stand in the order of the sorted records: ratings never
  increase from one block to the next, so a record with a strictly higher rating
  comes earlier, and the records of one rating keep the order they had in the input.
\<close>

theorem blocks_sorted_by_rating:
  "sorted_wrt (\<lambda>a b. rating a \<ge> rating b)
     (filter (\<lambda>w. exists_in dir (photo w)) (sorted_reverse rating wines)) \<and>
   (\<forall>k. filter (\<lambda>w. rating w = k)
          (filter (\<lambda>w. exists_in dir (photo w)) (sorted_reverse rating wines)) =
        filter (\<lambda>w. rating w = k) (filter (\<lambda>w. exists_in dir (photo w)) wines)) \<and>
   (generate_html wines dir = Inr html \<longrightarrow>
      html = html_head @
             concat (map (block_of dir)
               (filter (\<lambda>w. exists_in dir (photo w)) (sorted_reverse rating wines))) @
             html_tail)"
proof (intro conjI allI impI)
  show "sorted_wrt (\<lambda>a b. rating a \<ge> rating b)
     (filter (\<lambda>w. exists_in dir (photo w)) (sorted_reverse rating wines))"
    by (rule sorted_wrt_filter) (rule sorted_reverse_descending)
next
  fix k
  show "filter (\<lambda>w. rating w = k)
          (filter (\<lambda>w. exists_in dir (photo w)) (sorted_reverse rating wines)) =
        filter (\<lambda>w. rating w = k) (filter (\<lambda>w. exists_in dir (photo w)) wines)"
  proof -
    let ?E = "\<lambda>w. exists_in dir (photo w)"
    let ?K = "\<lambda>w. rating w = k"
    have "filter ?K (filter ?E (sorted_reverse rating wines)) =
          filter ?E (filter ?K (sorted_reverse rating wines))"
      by (simp add: conj_commute)
    also have "\<dots> = filter ?E (filter ?K wines)"
      by (simp only: sorted_reverse_stable)
    also have "\<dots> = filter ?K (filter ?E wines)"
      by (simp add: conj_commute)
    finally show ?thesis .
  qed
next
  assume "generate_html wines dir = Inr html"
  then show "html = html_head @
             concat (map (block_of dir)
               (filter (\<lambda>w. exists_in dir (photo w)) (sorted_reverse rating wines))) @
             html_tail"
    by (simp add: generate_html_char concat_blocks_filter split: if_splits)
qed

text \<open>
  Ratings 4, 10, 9 and 9, the photo of the 10 missing: the blocks are those of the two
  9s in their input order, then that of the 4.
\<close>

theorem blocks_sorted_by_rating_witness:
  "generate_html
     [\<lparr>photo = ''a.jpg'', rating = 4, comment = ''thin''\<rparr>,
      \<lparr>photo = ''gone.jpg'', rating = 10, comment = ''lost''\<rparr>,
      \<lparr>photo = ''b.jpg'', rating = 9, comment = ''Great''\<rparr>,
      \<lparr>photo = ''c.jpg'', rating = 9, comment = ''fine''\<rparr>]
     (\<lambda>name. if name \<in> {''a.jpg'', ''b.jpg'', ''c.jpg''} then Some (Readable [1]) else None) =
   Inr (html_head @
        (wine_block \<lparr>photo = ''b.jpg'', rating = 9, comment = ''Great''\<rparr> (b64encode [1]) @
         wine_block \<lparr>photo = ''c.jpg'', rating = 9, comment = ''fine''\<rparr> (b64encode [1]) @
         wine_block \<lparr>photo = ''a.jpg'', rating = 4, comment = ''thin''\<rparr> (b64encode [1])) @
        html_tail) \<and>
   filter (\<lambda>w. exists_in
       (\<lambda>name. if name \<in> {''a.jpg'', ''b.jpg'', ''c.jpg''} then Some (Readable [1]) else None)
       (photo w))
     (sorted_reverse rating
       [\<lparr>photo = ''a.jpg'', rating = 4, comment = ''thin''\<rparr>,
        \<lparr>photo = ''gone.jpg'', rating = 10, comment = ''lost''\<rparr>,
        \<lparr>photo = ''b.jpg'', rating = 9, comment = ''Great''\<rparr>,
        \<lparr>photo = ''c.jpg'', rating = 9, comment = ''fine''\<rparr>]) =
     [\<lparr>photo = ''b.jpg'', rating = 9, comment = ''Great''\<rparr>,
      \<lparr>photo = ''c.jpg'', rating = 9, comment = ''fine''\<rparr>,
      \<lparr>photo = ''a.jpg'', rating = 4, comment = ''thin''\<rparr>]"
proof -
  let ?D = "\<lambda>name. if name \<in> {''a.jpg'', ''b.jpg'', ''c.jpg''} then Some (Readable [1]) else None"
  let ?L = "[\<lparr>photo = ''a.jpg'', rating = 4, comment = ''thin''\<rparr>,
      \<lparr>photo = ''gone.jpg'', rating = 10, comment = ''lost''\<rparr>,
      \<lparr>photo = ''b.jpg'', rating = 9, comment = ''Great''\<rparr>,
      \<lparr>photo = ''c.jpg'', rating = 9, comment = ''fine''\<rparr>]"
  have s: "filter (\<lambda>w. exists_in ?D (photo w)) (sorted_reverse rating ?L) =
     [\<lparr>photo = ''b.jpg'', rating = 9, comment = ''Great''\<rparr>,
      \<lparr>photo = ''c.jpg'', rating = 9, comment = ''fine''\<rparr>,
      \<lparr>photo = ''a.jpg'', rating = 4, comment = ''thin''\<rparr>]"
    by (simp add: sorted_reverse_def exists_in_def)
  have "\<exists>html. generate_html ?L ?D = Inr html"
    by (simp add: generate_html_char)
  then obtain html where h: "generate_html ?L ?D = Inr html" by blast
  from blocks_sorted_by_rating [of ?D ?L html] h
  have "html = html_head @ concat (map (block_of ?D)
      (filter (\<lambda>w. exists_in ?D (photo w)) (sorted_reverse rating ?L))) @ html_tail"
    by blast
  then have "html = html_head @
        (wine_block \<lparr>photo = ''b.jpg'', rating = 9, comment = ''Great''\<rparr> (b64encode [1]) @
         wine_block \<lparr>photo = ''c.jpg'', rating = 9, comment = ''fine''\<rparr> (b64encode [1]) @
         wine_block \<lparr>photo = ''a.jpg'', rating = 4, comment = ''thin''\<rparr> (b64encode [1])) @
        html_tail"
    unfolding s by (simp add: block_of_Readable del: b64encode.simps)
  with h s show ?thesis by (simp del: b64encode.simps)
qed



section \<open>The page shell\<close>




section \<open>Base64\<close>

text \<open>
  The four indices of a group of three bytes put together again are the 24 bits of
  the group; no character of the alphabet is the padding character.
\<close>

lemma b64_index_char: "n < 64 \<Longrightarrow> b64_index (b64_char n) = Some n"
  by (auto simp: b64_index_def b64_char_def Let_def)

lemma b64_char_not_pad: "b64_char n \<noteq> CHR ''=''"
proof -
  have "(of_char (b64_char n) :: nat) \<noteq> 61"
    by (auto simp: b64_char_def)
  then show ?thesis by auto
qed

lemma sextets:
  fixes n :: nat
  shows "((n div 262144 * 64 + n div 4096 mod 64) * 64 + n div 64 mod 64) * 64 + n mod 64 = n"
proof -
  have a: "n div 262144 = n div 4096 div 64" by (simp add: div_mult2_eq)
  have b: "n div 4096 = n div 64 div 64" by (simp add: div_mult2_eq)
  have "n div 262144 * 64 + n div 4096 mod 64 = n div 4096"
    unfolding a by (rule div_mult_mod_eq)
  moreover have "n div 4096 * 64 + n div 64 mod 64 = n div 64"
    unfolding b by (rule div_mult_mod_eq)
  moreover have "n div 64 * 64 + n mod 64 = n"
    by (rule div_mult_mod_eq)
  ultimately show ?thesis by simp
qed

lemma low_byte:
  fixes x c :: nat
  assumes "c < 256"
  shows "(x * 256 + c) div 256 = x" and "(x * 256 + c) mod 256 = c"
  using assms by simp_all

lemma bytes3:
  fixes a b c :: nat
  assumes "b < 256" "c < 256"
  shows "((a * 256 + b) * 256 + c) div 65536 = a"
    and "((a * 256 + b) * 256 + c) div 256 mod 256 = b"
    and "((a * 256 + b) * 256 + c) mod 256 = c"
proof -
  have d: "((a * 256 + b) * 256 + c) div 256 = a * 256 + b"
    using assms(2) by (rule low_byte(1))
  have "((a * 256 + b) * 256 + c) div 65536 = ((a * 256 + b) * 256 + c) div 256 div 256"
    by (simp only: div_mult2_eq [symmetric]) simp
  also have "\<dots> = a"
    unfolding d using assms(1) by (rule low_byte(1))
  finally show "((a * 256 + b) * 256 + c) div 65536 = a" .
  show "((a * 256 + b) * 256 + c) div 256 mod 256 = b"
    unfolding d using assms(1) by (rule low_byte(2))
  show "((a * 256 + b) * 256 + c) mod 256 = c"
    using assms(2) by (rule low_byte(2))
qed

lemma unat_byte: "unat (a :: byte) < 256"
  using unsigned_less [of a, where 'a = nat] by simp

lemma decode_group3:
  fixes a b c :: byte
  defines "n \<equiv> (unat a * 256 + unat b) * 256 + unat c"
  shows "b64decode_group final (b64_char (n div 262144)) (b64_char (n div 4096 mod 64))
           (b64_char (n div 64 mod 64)) (b64_char (n mod 64)) = Some [a, b, c]"
proof -
  have ub: "unat a < 256" "unat b < 256" "unat c < 256" by (rule unat_byte)+
  then have "n < 16777216" unfolding n_def by simp
  then have i1: "n div 262144 < 64" by simp
  have m: "((n div 262144 * 64 + n div 4096 mod 64) * 64 + n div 64 mod 64) * 64 + n mod 64 = n"
    by (rule sextets)
  have "of_nat (n div 65536) = a" "of_nat (n div 256 mod 256) = b" "of_nat (n mod 256) = c"
    unfolding n_def using bytes3 [OF ub(2) ub(3), of "unat a"] by simp_all
  then show ?thesis
    using i1 m
    by (simp add: b64decode_group_def b64_index_char b64_char_not_pad Let_def)
qed

lemma decode_group1:
  fixes a :: byte
  defines "n \<equiv> unat a * 16"
  shows "b64decode_group True (b64_char (n div 64)) (b64_char (n mod 64)) CHR ''='' CHR ''=''
           = Some [a]"
proof -
  have "unat a < 256" by (rule unat_byte)
  then have i1: "n div 64 < 64" unfolding n_def by simp
  have "n div 64 * 64 + n mod 64 = n" by (rule div_mult_mod_eq)
  moreover have "n div 16 = unat a" unfolding n_def by simp
  ultimately have "of_nat ((n div 64 * 64 + n mod 64) div 16) = a" by simp
  then show ?thesis
    using i1 by (simp add: b64decode_group_def b64_index_char)
qed

lemma decode_group2:
  fixes a b :: byte
  defines "n \<equiv> (unat a * 256 + unat b) * 4"
  shows "b64decode_group True (b64_char (n div 4096)) (b64_char (n div 64 mod 64))
           (b64_char (n mod 64)) CHR ''='' = Some [a, b]"
proof -
  have ub: "unat a < 256" "unat b < 256" by (rule unat_byte)+
  then have i1: "n div 4096 < 64" unfolding n_def by simp
  have e: "n div 4096 = n div 64 div 64" by (simp add: div_mult2_eq)
  have "n div 4096 * 64 + n div 64 mod 64 = n div 64"
    unfolding e by (rule div_mult_mod_eq)
  moreover have "n div 64 * 64 + n mod 64 = n" by (rule div_mult_mod_eq)
  ultimately have m: "(n div 4096 * 64 + n div 64 mod 64) * 64 + n mod 64 = n" by simp
  have q: "n div 4 = unat a * 256 + unat b" unfolding n_def by simp
  have "of_nat ((unat a * 256 + unat b) div 256) = a"
    "of_nat ((unat a * 256 + unat b) mod 256) = b"
    using low_byte [OF ub(2), of "unat a"] by simp_all
  then show ?thesis
    using i1 m q
    by (simp add: b64decode_group_def b64_index_char b64_char_not_pad Let_def)
qed

lemma b64_roundtrip: "b64decode (b64encode bs) = Some bs"
proof (induction bs rule: b64encode.induct)
  case 1
  then show ?case by simp
next
  case (2 a)
  show ?case using decode_group1 [of a] by (simp add: Let_def)
next
  case (3 a b)
  show ?case using decode_group2 [of a b] by (simp add: Let_def)
next
  case (4 a b c rest)
  show ?case using decode_group3 [of "b64encode rest = []" a b c] "4.IH"
    by (simp add: Let_def)
qed

lemma wine_block_data_uri:
  \<open>\<exists>pre post. wine_block w img = pre @ ''<img src="data:image/jpeg;base64,'' @ img @ ''">'' @ post\<close>
proof -
  let ?pre = \<open>''
        <div class="wine" data-search="'' @ lower (comment w) @ ''">
            ''\<close>
  let ?post = \<open>''
            <div class="rating">'' @ str_int (rating w) @ ''/10</div>
            <div class="comment">'' @ comment w @ ''</div>
        </div>
''\<close>
  have \<open>wine_block w img = ?pre @ ''<img src="data:image/jpeg;base64,'' @ img @ ''">'' @ ?post\<close>
    by (simp add: wine_block_def)
  then show ?thesis by blast
qed

text \<open>
  C7. Decoding what \<open>b64encode\<close> returns gives back the bytes, for every list of bytes.
  The block of a record holds that text as the payload of its data URI, between
  \<open>base64,\<close> and the closing quote; \<open>image_to_base64\<close> returns it for a photo that can
  be read, and the document of such a record holds the block made with it.
\<close>

theorem base64_round_trip:
  \<open>b64decode (b64encode bytes) = Some bytes \<and>
   (\<exists>pre post. wine_block w img =
      pre @ ''<img src="data:image/jpeg;base64,'' @ img @ ''">'' @ post) \<and>
   (dir (photo w) = Some (Readable bytes) \<longrightarrow>
      image_to_base64 dir (photo w) = Inr (b64encode bytes) \<and>
      generate_html [w] dir = Inr (html_head @ wine_block w (b64encode bytes) @ html_tail))\<close>
proof (intro conjI impI)
  show "b64decode (b64encode bytes) = Some bytes" by (rule b64_roundtrip)
next
  show \<open>\<exists>pre post. wine_block w img =
      pre @ ''<img src="data:image/jpeg;base64,'' @ img @ ''">'' @ post\<close>
    by (rule wine_block_data_uri)
next
  assume "dir (photo w) = Some (Readable bytes)"
  then show "image_to_base64 dir (photo w) = Inr (b64encode bytes)"
    by (simp add: image_to_base64_def)
next
  assume "dir (photo w) = Some (Readable bytes)"
  then show "generate_html [w] dir = Inr (html_head @ wine_block w (b64encode bytes) @ html_tail)"
    by (simp add: generate_html_char sorted_reverse_single block_of_Readable)
qed

text \<open>
  The first bytes of a JPEG file.
\<close>

theorem base64_round_trip_witness:
  "(\<lambda>name. if name = ''p.jpg'' then Some (Readable [255, 216, 255, 224, 0]) else None)
     (photo \<lparr>photo = ''p.jpg'', rating = 8, comment = ''Lovely''\<rparr>) =
     Some (Readable [255, 216, 255, 224, 0]) \<and>
   b64encode [255, 216, 255, 224, 0] = ''/9j/4AA='' \<and>
   b64decode ''/9j/4AA='' = Some [255, 216, 255, 224, 0] \<and>
   generate_html [\<lparr>photo = ''p.jpg'', rating = 8, comment = ''Lovely''\<rparr>]
     (\<lambda>name. if name = ''p.jpg'' then Some (Readable [255, 216, 255, 224, 0]) else None) =
     Inr (html_head @ wine_block \<lparr>photo = ''p.jpg'', rating = 8, comment = ''Lovely''\<rparr> ''/9j/4AA=''
          @ html_tail)"
proof -
  let ?D = "\<lambda>name. if name = ''p.jpg'' then Some (Readable [255, 216, 255, 224, 0]) else None"
  let ?W = "\<lparr>photo = ''p.jpg'', rating = 8, comment = ''Lovely''\<rparr>"
  have h: "?D (photo ?W) = Some (Readable [255, 216, 255, 224, 0])" by simp
  have e: "b64encode [255, 216, 255, 224, 0] = ''/9j/4AA=''"
    by (simp add: b64_char_def char_of_def bit_0)
  note t = base64_round_trip [of "[255, 216, 255, 224, 0]" ?W "[]" ?D]
  have d: "b64decode (b64encode [255, 216, 255, 224, 0]) = Some [255, 216, 255, 224, 0]"
    using t by (rule conjunct1)
  have g: "generate_html [?W] ?D =
      Inr (html_head @ wine_block ?W (b64encode [255, 216, 255, 224, 0]) @ html_tail)"
    using t h by blast
  show ?thesis
    using h e d [unfolded e] g [unfolded e] by (intro conjI)
qed

end
